theory Spec2Isabelle
  imports Main "HOL-Library.Sublist" "HOL-Library.Multiset"
begin

section \<open>Python strings\<close>

text \<open>
  The local (rule-based) paths of \<open>extract_key_points\<close> and \<open>generate_quiz\<close> in
  \<open>backend/app/nlp.py\<close> work on Python \<open>str\<close> values. A \<open>str\<close> is modelled as a
  \<open>string\<close>, each \<open>char\<close> standing for the code point of the same number (the
  Latin-1 range, code points 0 to 255). On that range \<open>str.lower\<close> maps character
  by character and \<open>len\<close> is \<open>length\<close>.
\<close>

text \<open>\<open>str.isspace\<close> on one character: the code points below 256 that \<open>str.strip()\<close>
  and \<open>str.split()\<close> treat as whitespace.\<close>

definition isspace :: "char \<Rightarrow> bool" where
  "isspace c \<longleftrightarrow> c \<in> {CHR 0x09, CHR 0x0A, CHR 0x0B, CHR 0x0C, CHR 0x0D,
                     CHR 0x1C, CHR 0x1D, CHR 0x1E, CHR 0x1F, CHR 0x20, CHR 0x85, CHR 0xA0}"

text \<open>\<open>str.lower\<close> on one character: A to Z and the upper-case letters of Latin-1
  (0xC0 to 0xDE without the multiplication sign 0xD7) move up by 32.\<close>

definition lower_char :: "char \<Rightarrow> char" where
  "lower_char c =
     (let n = (of_char c :: nat)
      in if (65 \<le> n \<and> n \<le> 90) \<or> (192 \<le> n \<and> n \<le> 222 \<and> n \<noteq> 215)
         then char_of (n + 32) else c)"

definition lower :: "string \<Rightarrow> string" where
  "lower s = map lower_char s"

text \<open>\<open>s.strip()\<close> and \<open>s.strip(chars)\<close>.\<close>

definition strip_with :: "(char \<Rightarrow> bool) \<Rightarrow> string \<Rightarrow> string" where
  "strip_with P s = rev (dropWhile P (rev (dropWhile P s)))"

definition strip :: "string \<Rightarrow> string" where
  "strip s = strip_with isspace s"

text \<open>The argument of \<open>w.strip('.,!?;:()[]"\'')\<close>.\<close>

definition punct_chars :: "string" where
  "punct_chars = [CHR ''.'', CHR '','', CHR ''!'', CHR ''?'', CHR '';'', CHR '':'',
                  CHR ''('', CHR '')'', CHR ''['', CHR '']'', CHR 0x22, CHR 0x27]"

definition strip_punct :: "string \<Rightarrow> string" where
  "strip_punct w = strip_with (\<lambda>c. c \<in> set punct_chars) w"

text \<open>The characters of the pattern \<open>[.!?]+\<close> and of \<open>endswith(('.', '!', '?'))\<close>.\<close>

definition is_term :: "char \<Rightarrow> bool" where
  "is_term c \<longleftrightarrow> c = CHR ''.'' \<or> c = CHR ''!'' \<or> c = CHR ''?''"

definition endswith_term :: "string \<Rightarrow> bool" where
  "endswith_term s \<longleftrightarrow> s \<noteq> [] \<and> is_term (last s)"

text \<open>\<open>re.split(r'[.!?]+', text)\<close>: the fragments between maximal runs of terminators;
  a run at the start or at the end leaves an empty fragment there.\<close>

function re_split :: "string \<Rightarrow> string list" where
  "re_split s =
     (let frag = takeWhile (\<lambda>c. \<not> is_term c) s;
          rest = dropWhile (\<lambda>c. \<not> is_term c) s
      in if rest = [] then [frag] else frag # re_split (dropWhile is_term rest))"
  by pat_completeness auto
termination
proof (relation "measure length")
  show "wf (measure length)" by simp
next
  fix s frag rest :: string
  assume r: "rest = dropWhile (\<lambda>c. \<not> is_term c) s" and ne: "rest \<noteq> []"
  from ne obtain c cs where rc: "rest = c # cs" by (cases rest) auto
  have "length (dropWhile is_term rest) \<le> length cs"
  proof -
    from r rc have "is_term c"
      by (metis hd_dropWhile list.sel(1) ne)
    then show ?thesis by (simp add: rc length_dropWhile_le)
  qed
  moreover have "length rest \<le> length s"
    by (simp add: r length_dropWhile_le)
  ultimately show "(dropWhile is_term rest, s) \<in> measure length"
    by (simp add: rc)
qed

declare re_split.simps [simp del]

text \<open>\<open>s.split()\<close>: the maximal runs of non-whitespace characters.\<close>

function py_split :: "string \<Rightarrow> string list" where
  "py_split s =
     (let s' = dropWhile isspace s
      in if s' = [] then []
         else takeWhile (\<lambda>c. \<not> isspace c) s' # py_split (dropWhile (\<lambda>c. \<not> isspace c) s'))"
  by pat_completeness auto
termination
proof (relation "measure length")
  show "wf (measure length)" by simp
next
  fix s s' :: string
  assume r: "s' = dropWhile isspace s" and ne: "s' \<noteq> []"
  from ne obtain c cs where rc: "s' = c # cs" by (cases s') auto
  from r rc have "\<not> isspace c"
    by (metis hd_dropWhile list.sel(1) ne)
  then have "length (dropWhile (\<lambda>c. \<not> isspace c) s') \<le> length cs"
    by (simp add: rc length_dropWhile_le)
  moreover have "length s' \<le> length s"
    by (simp add: r length_dropWhile_le)
  ultimately show "(dropWhile (\<lambda>c. \<not> isspace c) s', s) \<in> measure length"
    by (simp add: rc)
qed

declare py_split.simps [simp del]

text \<open>\<open>' '.join(ws)\<close>.\<close>

fun join_space :: "string list \<Rightarrow> string" where
  "join_space [] = []"
| "join_space [w] = w"
| "join_space (w # ws) = w @ '' '' @ join_space ws"

text \<open>\<open>xs[:n]\<close> for a Python integer \<open>n\<close>: a negative \<open>n\<close> counts from the end.\<close>

definition py_take :: "int \<Rightarrow> 'a list \<Rightarrow> 'a list" where
  "py_take n xs = (if 0 \<le> n then take (nat n) xs else take (nat (int (length xs) + n)) xs)"

section \<open>Key-point extraction\<close>

text \<open>The normalisation of line 160:
  \<open>s.strip() + "." if not s.strip().endswith(('.', '!', '?')) else s.strip()\<close>.\<close>

definition normalize :: "string \<Rightarrow> string" where
  "normalize s = (if \<not> endswith_term (strip s) then strip s @ ''.'' else strip s)"

text \<open>The normalisation of line 147, applied when every qualifying sentence is returned:
  \<open>s + "." if not s.endswith(('.', '!', '?')) else s\<close>.\<close>

definition add_period :: "string \<Rightarrow> string" where
  "add_period s = (if \<not> endswith_term s then s @ ''.'' else s)"

text \<open>Line 141: the fragments whose trimmed length exceeds 20, trimmed.\<close>

definition qualifying_sentences :: "string \<Rightarrow> string list" where
  "qualifying_sentences text =
     map strip (filter (\<lambda>s. 20 < length (strip s)) (re_split text))"

definition important_keywords :: "string list" where
  "important_keywords =
     [''important'', ''key'', ''theory'', ''principle'', ''therefore'', ''result'']"

text \<open>Lines 153 to 155: the score of the sentence at position \<open>idx\<close>. The test
  \<open>k in sentence.lower()\<close> is the substring test \<^const>\<open>sublist\<close>.\<close>

definition score_sentence :: "nat \<Rightarrow> string \<Rightarrow> int" where
  "score_sentence idx sentence =
     (let score0 = (if 10 \<le> length (py_split sentence) \<and> length (py_split sentence) \<le> 25
                    then 10 else 5);
          score1 = score0 + sum_list (map (\<lambda>k. 8)
                              (filter (\<lambda>k. sublist k (lower sentence)) important_keywords));
          score2 = score1 + max 0 (10 - int idx div 3)
      in score2)"

text \<open>Lines 151 to 156: the list \<open>scored\<close> of triples \<open>(score, sentence, idx)\<close>.\<close>

definition scored_sentences :: "string list \<Rightarrow> (int \<times> string \<times> nat) list" where
  "scored_sentences sentences =
     map (\<lambda>(idx, sentence). (score_sentence idx sentence, sentence, idx))
       (enumerate 0 sentences)"

text \<open>
  The score as the specification words it, for comparison with \<^const>\<open>score_sentence\<close>:
  8 for every occurrence of a term of the vocabulary in the lower-cased sentence, an
  occurrence being a position at which the term starts.
\<close>

fun count_occurrences :: "string \<Rightarrow> string \<Rightarrow> nat" where
  "count_occurrences k [] = (if k = [] then 1 else 0)"
| "count_occurrences k (c # cs) =
     (if prefix k (c # cs) then 1 else 0) + count_occurrences k cs"

definition spec_score :: "nat \<Rightarrow> string \<Rightarrow> int" where
  "spec_score idx sentence =
     (if 10 \<le> length (py_split sentence) \<and> length (py_split sentence) \<le> 25 then 10 else 5)
     + 8 * int (sum_list (map (\<lambda>k. count_occurrences k (lower sentence)) important_keywords))
     + max 0 (10 - int (idx div 3))"

definition no_key_points :: "string list" where
  "no_key_points = [''No key points could be extracted.'']"

text \<open>
  The local path of \<open>extract_key_points\<close> (lines 141 to 160). \<open>list.sort\<close> and
  \<open>sorted\<close> are stable, and \<open>reverse=True\<close> keeps the original order of elements
  with equal keys, so the first sort is the stable sort on the negated score;
  \<^const>\<open>sort_key\<close> is a stable insertion sort. No operation of this path raises
  on a \<open>str\<close> and an \<open>int\<close>, so the \<open>except\<close> branch is not reached.
\<close>

definition extract_key_points :: "string \<Rightarrow> int \<Rightarrow> string list" where
  "extract_key_points text num_points =
     (let sentences = qualifying_sentences text
      in if sentences = [] then no_key_points
         else if int (length sentences) \<le> num_points then map add_period sentences
         else
           let scored = sort_key (\<lambda>(score, sentence, idx). - score) (scored_sentences sentences);
               top = sort_key (\<lambda>(score, sentence, idx). idx) (py_take num_points scored)
           in map (\<lambda>(score, sentence, idx). normalize sentence) top)"

section \<open>Quiz generation\<close>

record QuizQuestion =
  question :: string
  options :: "string list"
  correct_answer :: string

datatype py_error = IndexError

text \<open>
  The random source is a sequence \<open>rnd\<close> of natural numbers; the state threaded
  through the code is the number \<open>p\<close> of values drawn so far. A draw below \<open>n\<close>
  is \<open>rnd p mod n\<close>, so every outcome of \<open>random.choice\<close> and \<open>random.shuffle\<close>
  is the outcome under some sequence.
\<close>

text \<open>\<open>random.choice(xs)\<close>: raises \<open>IndexError\<close> on an empty sequence.\<close>

definition choice :: "nat \<Rightarrow> 'a list \<Rightarrow> py_error + 'a" where
  "choice r xs = (if xs = [] then Inl IndexError else Inr (xs ! (r mod length xs)))"

text \<open>\<open>random.shuffle(x)\<close>: for \<open>i\<close> from \<open>len(x) - 1\<close> down to 1, draw \<open>j\<close> below
  \<open>i + 1\<close> and swap \<open>x[i]\<close> and \<open>x[j]\<close>.\<close>

fun shuffle_loop :: "nat \<Rightarrow> (nat \<Rightarrow> nat) \<Rightarrow> nat \<Rightarrow> 'a list \<Rightarrow> 'a list \<times> nat" where
  "shuffle_loop 0 rnd p xs = (xs, p)"
| "shuffle_loop (Suc i) rnd p xs =
     (let j = rnd p mod (Suc i + 1)
      in shuffle_loop i rnd (Suc p) (xs[Suc i := xs ! j, j := xs ! Suc i]))"

definition shuffle :: "(nat \<Rightarrow> nat) \<Rightarrow> nat \<Rightarrow> 'a list \<Rightarrow> 'a list \<times> nat" where
  "shuffle rnd p xs = shuffle_loop (length xs - 1) rnd p xs"

definition common_words :: "string list" where
  "common_words =
     [''the'', ''a'', ''an'', ''is'', ''are'', ''was'', ''were'', ''and'', ''but'',
      ''in'', ''on'', ''at'', ''to'', ''for'', ''of'', ''with'', ''that'', ''this'',
      ''these'', ''those'', ''from'', ''by'', ''as'', ''lecture'', ''concept'']"

text \<open>Lines 205 to 209: the pool of distractor words of all candidate sentences.\<close>

definition all_potential_distractors :: "string list \<Rightarrow> string list" where
  "all_potential_distractors candidate_sentences =
     concat (map (\<lambda>sentence.
        filter (\<lambda>w. 5 < length w \<and> lower w \<notin> set common_words)
          (map strip_punct (py_split sentence))) candidate_sentences)"

text \<open>Lines 220 and 221: the blankable positions of a sentence's words.\<close>

definition blank_candidates :: "string list \<Rightarrow> (nat \<times> string) list" where
  "blank_candidates words =
     map (\<lambda>(i, w). (i, strip_punct w))
       (filter (\<lambda>(i, w). 5 < length (strip_punct w) \<and> lower (strip_punct w) \<notin> set common_words)
          (enumerate 0 words))"

text \<open>
  Lines 243 to 251: the \<open>while len(options) < 4\<close> loop. The loop has no bound of its
  own, so the model takes \<open>fuel\<close>, the number of iterations it may still run, and
  returns \<open>None\<close> when an iteration is due and no fuel is left.
\<close>

fun build_options ::
  "nat \<Rightarrow> (nat \<Rightarrow> nat) \<Rightarrow> nat \<Rightarrow> string list \<Rightarrow> string \<Rightarrow> string list
     \<Rightarrow> (py_error + string list \<times> nat) option" where
  "build_options 0 rnd p current_distractors answer opts =
     (if length opts < 4 then None else Some (Inr (opts, p)))"
| "build_options (Suc fuel) rnd p current_distractors answer opts =
     (if length opts < 4 then
        if current_distractors \<noteq> [] then
          (case choice (rnd p) current_distractors of
             Inl e \<Rightarrow> Some (Inl e)
           | Inr distractor \<Rightarrow>
               build_options fuel rnd (Suc p) current_distractors answer
                 (if distractor \<notin> set opts then opts @ [distractor] else opts))
        else Some (Inr (opts @ [''Not '' @ answer, ''None of the above''], p))
      else Some (Inr (opts, p)))"

text \<open>
  Lines 213 to 260: the loop over the candidate sentences. The state is
  \<open>(quiz_questions, used_answers, p)\<close>. \<open>blank_idx\<close> comes from \<open>enumerate(words)\<close>,
  so the assignment \<open>q_words[blank_idx] = ...\<close> is in range.
\<close>

fun quiz_loop ::
  "nat \<Rightarrow> (nat \<Rightarrow> nat) \<Rightarrow> int \<Rightarrow> string list \<Rightarrow> string list
     \<Rightarrow> QuizQuestion list \<times> string set \<times> nat \<Rightarrow> (py_error + QuizQuestion list) option" where
  "quiz_loop fuel rnd num_questions pool [] (quiz_questions, used_answers, p) =
     Some (Inr quiz_questions)"
| "quiz_loop fuel rnd num_questions pool (sentence # rest) (quiz_questions, used_answers, p) =
     (if num_questions \<le> int (length quiz_questions) then Some (Inr quiz_questions)
      else
        let words = py_split sentence in
        if length words < 8
        then quiz_loop fuel rnd num_questions pool rest (quiz_questions, used_answers, p)
        else
          let candidates = blank_candidates words in
          if candidates = []
          then quiz_loop fuel rnd num_questions pool rest (quiz_questions, used_answers, p)
          else
            (case choice (rnd p) candidates of
               Inl e \<Rightarrow> Some (Inl e)
             | Inr (blank_idx, answer) \<Rightarrow>
                 if lower answer \<in> used_answers
                 then quiz_loop fuel rnd num_questions pool rest
                        (quiz_questions, used_answers, Suc p)
                 else
                   let q_words = words[blank_idx := ''__________''];
                       question_text = ''Complete the statement: '' @ [CHR 0x22]
                                         @ join_space q_words @ [CHR 0x22];
                       current_distractors = filter (\<lambda>d. lower d \<noteq> lower answer) pool
                   in (case build_options fuel rnd (Suc p) current_distractors answer [answer] of
                         None \<Rightarrow> None
                       | Some (Inl e) \<Rightarrow> Some (Inl e)
                       | Some (Inr (opts, p')) \<Rightarrow>
                           (case shuffle rnd p' opts of
                              (shuffled, p'') \<Rightarrow>
                                quiz_loop fuel rnd num_questions pool rest
                                  (quiz_questions @
                                     [\<lparr>question = question_text, options = shuffled,
                                       correct_answer = answer\<rparr>],
                                   insert (lower answer) used_answers, p'')))))"

text \<open>Line 266: the question returned when the body raises.\<close>

definition placeholder_question :: QuizQuestion where
  "placeholder_question =
     \<lparr>question = ''What is a key concept here?'',
      options = [''A'', ''B'', ''C'', ''D''], correct_answer = ''A''\<rparr>"

text \<open>
  The local path of \<open>generate_quiz\<close> (lines 195 to 266) with its \<open>try\<close>/\<open>except\<close>:
  \<open>None\<close> when a \<open>while\<close> loop needs more than \<open>fuel\<close> iterations, the placeholder
  when the body raises, the questions otherwise.
\<close>

definition generate_quiz ::
  "nat \<Rightarrow> (nat \<Rightarrow> nat) \<Rightarrow> string \<Rightarrow> int \<Rightarrow> QuizQuestion list option" where
  "generate_quiz fuel rnd text num_questions =
     (let candidate_sentences = extract_key_points text (num_questions * 3);
          all_distractors = all_potential_distractors candidate_sentences
      in case quiz_loop fuel rnd num_questions all_distractors candidate_sentences ([], {}, 0) of
           None \<Rightarrow> None
         | Some (Inl e) \<Rightarrow> Some [placeholder_question]
         | Some (Inr quiz_questions) \<Rightarrow> Some quiz_questions)"

section \<open>Properties of the string primitives\<close>

lemma dropWhile_hd_id: "xs \<noteq> [] \<Longrightarrow> \<not> P (hd xs) \<Longrightarrow> dropWhile P xs = xs"
  by (cases xs) auto

lemma strip_with_ends:
  assumes "strip_with P s \<noteq> []"
  shows "\<not> P (hd (strip_with P s)) \<and> \<not> P (last (strip_with P s))"
proof -
  define d where "d = dropWhile P s"
  define r where "r = dropWhile P (rev d)"
  have t: "strip_with P s = rev r"
    by (simp add: strip_with_def d_def r_def)
  from assms t have rne: "r \<noteq> []" by simp
  then have hr: "\<not> P (hd r)"
    unfolding r_def by (rule hd_dropWhile)
  have "rev d = takeWhile P (rev d) @ r"
    by (simp add: r_def)
  then have "rev (rev d) = rev (takeWhile P (rev d) @ r)" by simp
  then have dd: "d = rev r @ rev (takeWhile P (rev d))" by simp
  from rne have "hd (rev r @ rev (takeWhile P (rev d))) = hd (rev r)" by simp
  with dd have hd_eq: "hd d = hd (rev r)" by simp
  from dd rne have "d \<noteq> []" by auto
  then have "\<not> P (hd d)"
    unfolding d_def by (rule hd_dropWhile)
  with hd_eq have "\<not> P (hd (rev r))" by simp
  moreover from rne hr have "\<not> P (last (rev r))" by (simp add: last_rev)
  ultimately show ?thesis by (simp add: t)
qed

lemma strip_with_fixed:
  assumes "t = [] \<or> (\<not> P (hd t) \<and> \<not> P (last t))"
  shows "strip_with P t = t"
proof (cases "t = []")
  case True
  then show ?thesis by (simp add: strip_with_def)
next
  case False
  with assms have h: "\<not> P (hd t)" and l: "\<not> P (last t)" by auto
  from False h have a: "dropWhile P t = t" by (rule dropWhile_hd_id)
  from False l have "dropWhile P (rev t) = rev t"
    by (intro dropWhile_hd_id) (simp_all add: hd_rev)
  with a show ?thesis by (simp add: strip_with_def)
qed

lemma strip_with_idem: "strip_with P (strip_with P s) = strip_with P s"
  by (rule strip_with_fixed) (use strip_with_ends [of P s] in blast)

lemma strip_idem: "strip (strip s) = strip s"
  by (simp add: strip_def strip_with_idem)

lemma strip_append_dot:
  assumes "strip s = s"
  shows "strip (s @ ''.'') = s @ ''.''"
proof -
  have dot: "\<not> isspace CHR ''.''" by (simp add: isspace_def)
  have "\<not> isspace (hd (s @ ''.''))"
  proof (cases "s = []")
    case True
    with dot show ?thesis by simp
  next
    case False
    with assms have "strip_with isspace s \<noteq> []" by (simp add: strip_def)
    then have "\<not> isspace (hd (strip_with isspace s))"
      using strip_with_ends by blast
    with assms False show ?thesis by (simp add: strip_def)
  qed
  moreover from dot have "\<not> isspace (last (s @ ''.''))" by simp
  ultimately show ?thesis
    unfolding strip_def by (intro strip_with_fixed) simp
qed

text \<open>C10: the terminal-punctuation normaliser is idempotent: applied to its own
  result it returns that result unchanged, for every string.\<close>

theorem normalize_idempotent: "normalize (normalize s) = normalize s"
proof (cases "endswith_term (strip s)")
  case True
  then show ?thesis by (simp add: normalize_def strip_idem)
next
  case False
  have "strip (strip s @ ''.'') = strip s @ ''.''"
    by (rule strip_append_dot) (rule strip_idem)
  moreover have "endswith_term (strip s @ ''.'')"
    by (simp add: endswith_term_def is_term_def)
  ultimately show ?thesis using False by (simp add: normalize_def)
qed

theorem normalize_idempotent_witness:
  "normalize (normalize ''  Key points matter  '') = normalize ''  Key points matter  ''"
  by (rule normalize_idempotent)

section \<open>Degenerate input\<close>

lemma qualifying_sentences_empty:
  assumes "\<forall>f\<in>set (re_split text). length (strip f) \<le> 20"
  shows "qualifying_sentences text = []"
proof -
  have "filter (\<lambda>s. 20 < length (strip s)) (re_split text) = []"
    using assms by (auto simp: filter_empty_conv)
  then show ?thesis by (simp add: qualifying_sentences_def)
qed

lemma extract_key_points_no_sentences:
  "qualifying_sentences text = [] \<Longrightarrow> extract_key_points text num_points = no_key_points"
  by (simp add: extract_key_points_def)

text \<open>C8: when no fragment of the text has a trimmed length above 20,
  \<open>extract_key_points\<close> returns the one-element list holding
  "No key points could be extracted.": not the empty list, and no fault.\<close>

theorem extract_key_points_sentinel:
  assumes "\<forall>f\<in>set (re_split text). length (strip f) \<le> 20"
  shows "extract_key_points text num_points = [''No key points could be extracted.'']"
  using extract_key_points_no_sentences [OF qualifying_sentences_empty [OF assms]]
  by (simp add: no_key_points_def)

theorem extract_key_points_sentinel_witness:
  "list_all (\<lambda>f. length (strip f) \<le> 20) (re_split ''Hello world. Too short!'')
   \<and> extract_key_points ''Hello world. Too short!'' 7 = [''No key points could be extracted.'']"
proof -
  have l: "list_all (\<lambda>f. length (strip f) \<le> 20) (re_split ''Hello world. Too short!'')"
    by code_simp
  then have h: "\<forall>f\<in>set (re_split ''Hello world. Too short!''). length (strip f) \<le> 20"
    by (simp only: list_all_iff)
  from l extract_key_points_sentinel [OF h] show ?thesis by (rule conjI)
qed

lemma sentinel_words:
  "py_split ''No key points could be extracted.'' =
     [''No'', ''key'', ''points'', ''could'', ''be'', ''extracted.'']"
  by code_simp

lemma quiz_loop_sentinel:
  "quiz_loop fuel rnd n pool no_key_points ([], {}, 0) = Some (Inr [])"
  by (simp add: no_key_points_def sentinel_words)

text \<open>C2, as the code has it: when no fragment of the text has a trimmed length
  above 20, \<open>generate_quiz\<close> returns the empty list of questions (the placeholder
  question is returned only when the body raises) and \<open>extract_key_points\<close> returns
  the one-element "no key points" list.\<close>

theorem short_text_no_questions:
  assumes "\<forall>f\<in>set (re_split text). length (strip f) \<le> 20"
  shows "generate_quiz fuel rnd text num_questions = Some []
         \<and> extract_key_points text num_points = [''No key points could be extracted.'']"
proof -
  have q: "qualifying_sentences text = []"
    using assms by (rule qualifying_sentences_empty)
  have "generate_quiz fuel rnd text num_questions = Some []"
    by (simp add: generate_quiz_def extract_key_points_no_sentences [OF q] quiz_loop_sentinel)
  moreover have "extract_key_points text num_points = [''No key points could be extracted.'']"
    using extract_key_points_no_sentences [OF q] by (simp add: no_key_points_def)
  ultimately show ?thesis by simp
qed

theorem short_text_no_questions_witness:
  "list_all (\<lambda>f. length (strip f) \<le> 20) (re_split ''Hi there. Ok!'')
   \<and> generate_quiz 0 id ''Hi there. Ok!'' 5 = Some []
   \<and> extract_key_points ''Hi there. Ok!'' 7 = [''No key points could be extracted.'']"
proof -
  have l: "list_all (\<lambda>f. length (strip f) \<le> 20) (re_split ''Hi there. Ok!'')"
    by code_simp
  then have h: "\<forall>f\<in>set (re_split ''Hi there. Ok!''). length (strip f) \<le> 20"
    by (simp only: list_all_iff)
  from l short_text_no_questions [OF h, of 0 id 5 7] show ?thesis by (rule conjI)
qed

text \<open>C2 as stated fails: on the empty text \<open>generate_quiz\<close> returns no question
  at all, not the placeholder question.\<close>

theorem short_text_placeholder_counterexample:
  "qualifying_sentences '''' = []
   \<and> generate_quiz 0 id '''' 5 = Some []
   \<and> generate_quiz 0 id '''' 5 \<noteq> Some [placeholder_question]"
  by code_simp

section \<open>Selection of the key points\<close>

lemma strip_qualifying:
  assumes "s \<in> set (qualifying_sentences text)"
  shows "strip s = s"
  using assms by (auto simp: qualifying_sentences_def strip_idem)

lemma add_period_normalize: "strip s = s \<Longrightarrow> add_period s = normalize s"
  by (simp add: add_period_def normalize_def)

lemma length_scored_sentences [simp]: "length (scored_sentences S) = length S"
  by (simp add: scored_sentences_def)

lemma nth_scored_sentences:
  "i < length S \<Longrightarrow> scored_sentences S ! i = (score_sentence i (S ! i), S ! i, i)"
  by (simp add: scored_sentences_def nth_enumerate_eq)

lemma scored_sentences_entry:
  assumes "e \<in> set (scored_sentences S)"
  shows "snd (snd e) < length S \<and> fst (snd e) = S ! snd (snd e)"
proof -
  from assms obtain i where "i < length (scored_sentences S)" and "e = scored_sentences S ! i"
    by (auto simp: in_set_conv_nth)
  then show ?thesis by (simp add: nth_scored_sentences)
qed

lemma map_idx_scored_sentences:
  "map (\<lambda>e. snd (snd e)) (scored_sentences S) = [0..<length S]"
  by (rule nth_equalityI) (simp_all add: nth_scored_sentences)

lemma distinct_map_mset:
  assumes "mset ys = mset xs" and "distinct (map f xs)"
  shows "distinct (map f ys)"
proof -
  have "mset (map f ys) = mset (map f xs)"
    using assms(1) by (metis mset_map)
  then show ?thesis
    using assms(2) mset_eq_imp_distinct_iff by blast
qed

lemma top_sentences:
  fixes S :: "string list" and k :: int
  assumes k: "0 \<le> k" "k < int (length S)"
  defines "sel \<equiv> sort_key (\<lambda>(score, sentence, idx). idx)
                    (py_take k (sort_key (\<lambda>(score, sentence, idx). - score) (scored_sentences S)))"
  shows "length sel = nat k"
    and "sorted_wrt (<) (map (\<lambda>e. snd (snd e)) sel)"
    and "\<forall>e\<in>set sel. snd (snd e) < length S \<and> fst (snd e) = S ! snd (snd e)"
proof -
  let ?idx = "\<lambda>e::int \<times> string \<times> nat. snd (snd e)"
  let ?scored = "sort_key (\<lambda>(score, sentence, idx). - score) (scored_sentences S)"
  have idx_eq: "(\<lambda>(score, sentence, idx). idx) = ?idx" by auto
  have taken: "py_take k ?scored = take (nat k) ?scored"
    using k by (simp add: py_take_def)
  show "length sel = nat k"
    using k by (simp add: sel_def taken)
  have "distinct (map ?idx (scored_sentences S))"
    by (simp add: map_idx_scored_sentences)
  then have "distinct (map ?idx ?scored)"
    by (rule distinct_map_mset [rotated]) simp
  then have "distinct (take (nat k) (map ?idx ?scored))"
    by (rule distinct_take)
  then have "distinct (map ?idx (take (nat k) ?scored))"
    by (simp add: take_map)
  then have d: "distinct (map ?idx sel)"
    unfolding sel_def taken by (rule distinct_map_mset [rotated]) simp
  have "sorted (map ?idx sel)"
    unfolding sel_def idx_eq by (rule sorted_sort_key)
  with d show "sorted_wrt (<) (map ?idx sel)"
    by (simp add: strict_sorted_iff)
  have "set sel \<subseteq> set (scored_sentences S)"
    unfolding sel_def taken using set_take_subset [of "nat k" ?scored] by simp
  then show "\<forall>e\<in>set sel. snd (snd e) < length S \<and> fst (snd e) = S ! snd (snd e)"
    using scored_sentences_entry by blast
qed

text \<open>C6: for \<open>num_points = k \<ge> 1\<close> and a text with at least \<open>k\<close> qualifying
  sentences, \<open>extract_key_points\<close> returns exactly \<open>k\<close> elements, and they are the
  normalised qualifying sentences at strictly increasing positions of the text.\<close>

theorem extract_key_points_length_order:
  assumes "1 \<le> k" and "k \<le> int (length (qualifying_sentences text))"
  shows "length (extract_key_points text k) = nat k
         \<and> (\<exists>is. sorted_wrt (<) is
                \<and> (\<forall>i\<in>set is. i < length (qualifying_sentences text))
                \<and> extract_key_points text k
                    = map (\<lambda>i. normalize (qualifying_sentences text ! i)) is)"
proof -
  define S where "S = qualifying_sentences text"
  from assms have ne: "S \<noteq> []" by (auto simp: S_def)
  show ?thesis
  proof (cases "int (length S) \<le> k")
    case True
    with assms have len: "int (length S) = k" by (simp add: S_def)
    from True ne have res: "extract_key_points text k = map add_period S"
      by (simp add: extract_key_points_def S_def [symmetric])
    have "map add_period S = map normalize S"
      by (rule map_cong) (simp_all add: S_def add_period_normalize strip_qualifying)
    also have "\<dots> = map (\<lambda>i. normalize (S ! i)) [0..<length S]"
      by (rule nth_equalityI) simp_all
    finally have eq: "extract_key_points text k = map (\<lambda>i. normalize (S ! i)) [0..<length S]"
      using res by simp
    have "length (extract_key_points text k) = nat k"
      using res len by simp
    moreover have "sorted_wrt (<) [0..<length S]" by simp
    moreover have "\<forall>i\<in>set [0..<length S]. i < length S" by simp
    ultimately show ?thesis
      using eq unfolding S_def by blast
  next
    case False
    define sel where "sel = sort_key (\<lambda>(score, sentence, idx). idx)
        (py_take k (sort_key (\<lambda>(score, sentence, idx). - score) (scored_sentences S)))"
    from False assms have k: "0 \<le> k" "k < int (length S)" by simp_all
    note t = top_sentences [OF k, folded sel_def]
    from False ne have res: "extract_key_points text k = map (\<lambda>(score, sentence, idx). normalize sentence) sel"
      by (simp add: extract_key_points_def S_def [symmetric] sel_def)
    have "map (\<lambda>(score, sentence, idx). normalize sentence) sel
            = map (\<lambda>i. normalize (S ! i)) (map (\<lambda>e. snd (snd e)) sel)"
      using t(3) by (auto simp: case_prod_beta)
    with res have eq: "extract_key_points text k
            = map (\<lambda>i. normalize (S ! i)) (map (\<lambda>e. snd (snd e)) sel)"
      by simp
    have "length (extract_key_points text k) = nat k"
      using res t(1) by simp
    moreover have "\<forall>i\<in>set (map (\<lambda>e. snd (snd e)) sel). i < length S"
      using t(3) by auto
    ultimately show ?thesis
      using eq t(2) unfolding S_def by blast
  qed
qed

theorem extract_key_points_length_order_witness:
  "(1::int) \<le> 1
   \<and> 1 \<le> int (length (qualifying_sentences
        ''The mitochondria is the powerhouse of the cell. Therefore this principle is important for biology students everywhere.''))
   \<and> length (extract_key_points
        ''The mitochondria is the powerhouse of the cell. Therefore this principle is important for biology students everywhere.'' 1) = nat 1"
proof -
  have h: "1 \<le> int (length (qualifying_sentences
        ''The mitochondria is the powerhouse of the cell. Therefore this principle is important for biology students everywhere.''))"
    by code_simp
  have one: "(1::int) \<le> 1" by simp
  from extract_key_points_length_order [OF one h] one h show ?thesis by blast
qed

section \<open>The score of a sentence\<close>

lemma distinct_important_keywords: "distinct important_keywords"
  by (simp add: important_keywords_def)

lemma sum_list_const_8: "sum_list (map (\<lambda>k. 8::int) xs) = 8 * int (length xs)"
  by (induction xs) simp_all

lemma keyword_bonus:
  "sum_list (map (\<lambda>k. 8::int) (filter P important_keywords))
     = 8 * int (card {k \<in> set important_keywords. P k})"
proof -
  have "length (filter P important_keywords) = card ({k. P k} \<inter> set important_keywords)"
    using distinct_important_keywords by (rule distinct_length_filter)
  moreover have "{k. P k} \<inter> set important_keywords = {k \<in> set important_keywords. P k}"
    by blast
  ultimately show ?thesis by (simp add: sum_list_const_8)
qed

text \<open>C7, as the code has it: the entry of \<open>scored\<close> for the sentence at position
  \<open>idx\<close> has the score 10 if the word count lies in 10 to 25 and 5 otherwise, plus 8 for
  each term of the vocabulary that is a substring of the lower-cased sentence (a term
  counts once, however often it occurs), plus \<open>max(0, 10 - idx div 3)\<close>.\<close>

theorem scored_sentences_score:
  assumes "idx < length sentences"
  shows "scored_sentences sentences ! idx =
           ((if 10 \<le> length (py_split (sentences ! idx)) \<and> length (py_split (sentences ! idx)) \<le> 25
             then 10 else 5)
            + 8 * int (card {k \<in> set important_keywords. sublist k (lower (sentences ! idx))})
            + max 0 (10 - int (idx div 3)),
            sentences ! idx, idx)"
proof -
  have "score_sentence idx (sentences ! idx) =
          (if 10 \<le> length (py_split (sentences ! idx)) \<and> length (py_split (sentences ! idx)) \<le> 25
             then 10 else 5)
            + 8 * int (card {k \<in> set important_keywords. sublist k (lower (sentences ! idx))})
            + max 0 (10 - int (idx div 3))"
    unfolding score_sentence_def Let_def keyword_bonus by (simp add: zdiv_int)
  with assms show ?thesis by (simp add: nth_scored_sentences)
qed

theorem scored_sentences_score_witness:
  "(0::nat) < length [''The key idea is the key to all of this'', ''Another sentence is right here now'']
   \<and> scored_sentences [''The key idea is the key to all of this'', ''Another sentence is right here now''] ! 0 =
           ((if 10 \<le> length (py_split ([''The key idea is the key to all of this'', ''Another sentence is right here now''] ! 0))
                \<and> length (py_split ([''The key idea is the key to all of this'', ''Another sentence is right here now''] ! 0)) \<le> 25
             then 10 else 5)
            + 8 * int (card {k \<in> set important_keywords. sublist k (lower ([''The key idea is the key to all of this'', ''Another sentence is right here now''] ! 0))})
            + max 0 (10 - int (0 div 3)),
            [''The key idea is the key to all of this'', ''Another sentence is right here now''] ! 0, 0)"
proof -
  have h: "(0::nat) < length [''The key idea is the key to all of this'', ''Another sentence is right here now'']"
    by simp
  from scored_sentences_score [OF h] h show ?thesis by blast
qed

text \<open>C7 as stated fails: in a sentence where "key" occurs twice the code adds 8 once
  (score 28), while 8 per occurrence gives 36.\<close>

theorem score_per_occurrence_counterexample:
  "qualifying_sentences ''The key idea is the key to all of this. Another sentence is right here now.''
     = [''The key idea is the key to all of this'', ''Another sentence is right here now'']
   \<and> scored_sentences [''The key idea is the key to all of this'', ''Another sentence is right here now''] ! 0
     = (28, ''The key idea is the key to all of this'', 0)
   \<and> spec_score 0 ''The key idea is the key to all of this'' = 36
   \<and> fst (scored_sentences [''The key idea is the key to all of this'', ''Another sentence is right here now''] ! 0)
     \<noteq> spec_score 0 ''The key idea is the key to all of this''"
  by code_simp

section \<open>The option-building loop and the loop over the sentences\<close>

lemma shuffle_loop_mset:
  "i \<le> length xs - 1 \<Longrightarrow> mset (fst (shuffle_loop i rnd p xs)) = mset xs"
proof (induction i arbitrary: p xs)
  case 0
  show ?case by simp
next
  case (Suc i)
  let ?j = "rnd p mod (Suc i + 1)"
  let ?ys = "xs[Suc i := xs ! ?j, ?j := xs ! Suc i]"
  from Suc.prems have a: "Suc i < length xs" by simp
  have "?j < Suc i + 1" by (rule mod_less_divisor) simp
  with a have b: "?j < length xs" by linarith
  have swap: "mset ?ys = mset xs"
    using b a by (rule mset_swap)
  from a have "i \<le> length ?ys - 1" by simp
  then have "mset (fst (shuffle_loop i rnd (Suc p) ?ys)) = mset ?ys"
    by (rule Suc.IH)
  with swap show ?case by (simp add: Let_def)
qed

lemma shuffle_mset:
  assumes "shuffle rnd p xs = (ys, p')"
  shows "mset ys = mset xs"
proof -
  have "mset (fst (shuffle rnd p xs)) = mset xs"
    unfolding shuffle_def by (rule shuffle_loop_mset) simp
  with assms show ?thesis by simp
qed

lemma build_options_no_raise:
  "build_options fuel rnd p cd a opts \<noteq> Some (Inl e)"
  by (induction fuel arbitrary: p opts) (auto simp: choice_def)

lemma build_options_pool:
  assumes "build_options fuel rnd p cd a opts = Some (Inr (os, p'))"
    and "cd \<noteq> []" and "distinct opts" and "length opts \<le> 4"
  shows "distinct os \<and> set opts \<subseteq> set os \<and> set os \<subseteq> set opts \<union> set cd \<and> length os = 4"
  using assms
proof (induction fuel arbitrary: p opts)
  case 0
  then show ?case by (auto split: if_splits)
next
  case (Suc fuel)
  show ?case
  proof (cases "length opts < 4")
    case False
    with Suc.prems show ?thesis by auto
  next
    case True
    define d where "d = cd ! (rnd p mod length cd)"
    define opts' where "opts' = (if d \<notin> set opts then opts @ [d] else opts)"
    from Suc.prems(2) have dcd: "d \<in> set cd" by (simp add: d_def)
    from True Suc.prems(1,2)
    have rec: "build_options fuel rnd (Suc p) cd a opts' = Some (Inr (os, p'))"
      by (auto simp add: choice_def d_def opts'_def split: if_splits)
    have "distinct opts'" using Suc.prems(3) by (simp add: opts'_def)
    moreover have "length opts' \<le> 4" using True by (simp add: opts'_def)
    ultimately have "distinct os \<and> set opts' \<subseteq> set os \<and> set os \<subseteq> set opts' \<union> set cd \<and> length os = 4"
      using Suc.IH [OF rec Suc.prems(2)] by blast
    moreover have "set opts \<subseteq> set opts'" by (auto simp: opts'_def)
    moreover have "set opts' \<subseteq> set opts \<union> set cd" using dcd by (auto simp: opts'_def)
    ultimately show ?thesis by blast
  qed
qed

lemma build_options_empty:
  assumes "build_options fuel rnd p [] a [a] = Some (Inr (os, p'))"
  shows "os = [a, ''Not '' @ a, ''None of the above'']"
  using assms by (cases fuel) auto

lemma quiz_loop_Cons_cases:
  assumes "quiz_loop fuel rnd n pool (s # rest) (qs, used, p) = Some (Inr res)"
  obtains (stop) "res = qs"
  | (skip) p1 where "quiz_loop fuel rnd n pool rest (qs, used, p1) = Some (Inr res)"
  | (add) idx answer opts p1 p2 shuffled p3 qt where
      "(idx, answer) \<in> set (blank_candidates (py_split s))"
      "lower answer \<notin> used"
      "build_options fuel rnd p1 (filter (\<lambda>d. lower d \<noteq> lower answer) pool) answer [answer]
         = Some (Inr (opts, p2))"
      "shuffle rnd p2 opts = (shuffled, p3)"
      "quiz_loop fuel rnd n pool rest
         (qs @ [\<lparr>question = qt, options = shuffled, correct_answer = answer\<rparr>],
          insert (lower answer) used, p3) = Some (Inr res)"
proof (cases "n \<le> int (length qs)")
  case True
  with assms have "res = qs" by simp
  then show ?thesis by (rule stop)
next
  case go: False
  show ?thesis
  proof (cases "length (py_split s) < 8 \<or> blank_candidates (py_split s) = []")
    case True
    with go assms have "quiz_loop fuel rnd n pool rest (qs, used, p) = Some (Inr res)"
      by (auto simp: Let_def split: if_splits)
    then show ?thesis by (rule skip)
  next
    case False
    define cands where "cands = blank_candidates (py_split s)"
    define pick where "pick = cands ! (rnd p mod length cands)"
    from False have ne: "cands \<noteq> []" by (simp add: cands_def)
    then have mem: "pick \<in> set cands" by (simp add: pick_def)
    obtain idx answer where pk: "pick = (idx, answer)" by (cases pick)
    have ch: "choice (rnd p) (blank_candidates (py_split s)) = Inr (idx, answer)"
      using ne pk by (simp add: choice_def cands_def pick_def)
    show ?thesis
    proof (cases "lower answer \<in> used")
      case True
      with go False ch assms
      have "quiz_loop fuel rnd n pool rest (qs, used, Suc p) = Some (Inr res)"
        by (simp add: Let_def)
      then show ?thesis by (rule skip)
    next
      case fresh: False
      let ?cd = "filter (\<lambda>d. lower d \<noteq> lower answer) pool"
      let ?qt = "''Complete the statement: '' @ [CHR 0x22]
                   @ join_space ((py_split s)[idx := ''__________'']) @ [CHR 0x22]"
      from False have f1: "\<not> length (py_split s) < 8"
        and f2: "blank_candidates (py_split s) \<noteq> []" by auto
      from assms
      have body: "(case build_options fuel rnd (Suc p) ?cd answer [answer] of
                 None \<Rightarrow> None
               | Some (Inl e) \<Rightarrow> Some (Inl e)
               | Some (Inr (opts, p')) \<Rightarrow>
                   (case shuffle rnd p' opts of
                      (shuffled, p'') \<Rightarrow>
                        quiz_loop fuel rnd n pool rest
                          (qs @ [\<lparr>question = ?qt, options = shuffled, correct_answer = answer\<rparr>],
                           insert (lower answer) used, p''))) = Some (Inr res)"
        by (simp only: quiz_loop.simps Let_def go f1 f2 ch fresh if_False sum.case prod.case)
      then obtain opts p2 where
        bo: "build_options fuel rnd (Suc p) ?cd answer [answer] = Some (Inr (opts, p2))"
        by (auto split: option.splits sum.splits)
      obtain shuffled p3 where sh: "shuffle rnd p2 opts = (shuffled, p3)"
        by (cases "shuffle rnd p2 opts")
      from body bo sh have
        "quiz_loop fuel rnd n pool rest
           (qs @ [\<lparr>question = ?qt, options = shuffled, correct_answer = answer\<rparr>],
            insert (lower answer) used, p3) = Some (Inr res)"
        by simp
      with mem pk fresh bo sh show ?thesis
        unfolding cands_def by (intro add) auto
    qed
  qed
qed

lemma quiz_loop_no_raise:
  "quiz_loop fuel rnd n pool sents (qs, used, p) \<noteq> Some (Inl e)"
proof (induction sents arbitrary: qs used p)
  case Nil
  show ?case by simp
next
  case (Cons s rest)
  show ?case
    using Cons.IH build_options_no_raise
    by (auto simp: Let_def choice_def split: option.splits sum.splits prod.splits)
qed

section \<open>Words, answers and the questions built from them\<close>

lemma py_split_no_space:
  "w \<in> set (py_split s) \<Longrightarrow> c \<in> set w \<Longrightarrow> \<not> isspace c"
proof (induction s rule: py_split.induct)
  case (1 s)
  define s' where "s' = dropWhile isspace s"
  have unf: "py_split s =
      (if s' = [] then []
       else takeWhile (\<lambda>c. \<not> isspace c) s' # py_split (dropWhile (\<lambda>c. \<not> isspace c) s'))"
    by (subst py_split.simps) (simp add: Let_def s'_def)
  from "1.prems"(1) have ne: "s' \<noteq> []"
    unfolding unf by (cases "s' = []") simp_all
  from "1.prems"(1) ne
  have w: "w = takeWhile (\<lambda>c. \<not> isspace c) s' \<or> w \<in> set (py_split (dropWhile (\<lambda>c. \<not> isspace c) s'))"
    unfolding unf by simp
  from w show ?case
  proof
    assume "w = takeWhile (\<lambda>c. \<not> isspace c) s'"
    with "1.prems"(2) show ?thesis by (auto dest: set_takeWhileD)
  next
    assume "w \<in> set (py_split (dropWhile (\<lambda>c. \<not> isspace c) s'))"
    with "1.IH" [OF s'_def ne] "1.prems"(2) show ?thesis by blast
  qed
qed

lemma set_strip_with: "set (strip_with P w) \<subseteq> set w"
  by (auto simp: strip_with_def dest!: set_dropWhileD)

lemma blank_candidates_word:
  assumes "(idx, answer) \<in> set (blank_candidates words)"
  shows "\<exists>w\<in>set words. answer = strip_punct w"
proof -
  from assms obtain i w where "(i, w) \<in> set (enumerate 0 words)" and "answer = strip_punct w"
    by (auto simp: blank_candidates_def)
  then show ?thesis by (auto simp: in_set_enumerate_eq)
qed

lemma answer_no_space:
  assumes "(idx, answer) \<in> set (blank_candidates (py_split s))"
  shows "CHR '' '' \<notin> set answer"
proof
  assume sp: "CHR '' '' \<in> set answer"
  from blank_candidates_word [OF assms] obtain w
    where w: "w \<in> set (py_split s)" and a: "answer = strip_punct w" by blast
  from sp a have "CHR '' '' \<in> set w"
    using set_strip_with by (auto simp: strip_punct_def)
  with w have "\<not> isspace CHR '' ''" by (rule py_split_no_space)
  then show False by (simp add: isspace_def)
qed

lemma lower_char_space:
  assumes "lower_char c = CHR '' ''"
  shows "c = CHR '' ''"
proof -
  define n where "n = (of_char c :: nat)"
  show ?thesis
  proof (cases "(65 \<le> n \<and> n \<le> 90) \<or> (192 \<le> n \<and> n \<le> 222 \<and> n \<noteq> 215)")
    case False
    then have "lower_char c = c"
      unfolding lower_char_def Let_def n_def by (simp only: if_False)
    with assms show ?thesis by simp
  next
    case True
    then have "lower_char c = char_of (n + 32)"
      unfolding lower_char_def Let_def n_def by (simp only: if_True)
    with assms have "char_of (n + 32) = CHR '' ''" by simp
    then have "(of_char (char_of (n + 32)) :: nat) = of_char CHR '' ''" by (rule arg_cong)
    then have m: "(n + 32) mod 256 = 32" by simp
    from True have "n + 32 < 256" by linarith
    then have "(n + 32) mod 256 = n + 32" by (rule mod_less)
    with m have "n + 32 = 32" by (simp only:)
    then have "n = 0" by simp
    with True have False by linarith
    then show ?thesis ..
  qed
qed

lemma length_lower [simp]: "length (lower s) = length s"
  by (simp add: lower_def)

lemma lower_no_space:
  assumes "CHR '' '' \<notin> set a"
  shows "CHR '' '' \<notin> set (lower a)"
proof
  assume "CHR '' '' \<in> set (lower a)"
  then obtain x where x: "x \<in> set a" and lx: "lower_char x = CHR '' ''"
    by (auto simp: lower_def)
  from lx have "x = CHR '' ''" by (rule lower_char_space)
  with x assms show False by simp
qed

lemma lower_none_of_the_above: "lower ''None of the above'' = ''none of the above''"
  by code_simp

lemma none_of_the_above_space: "CHR '' '' \<in> set (lower ''None of the above'')"
  unfolding lower_none_of_the_above by simp

lemma filler_options:
  assumes "CHR '' '' \<notin> set a"
  shows "distinct [a, ''Not '' @ a, ''None of the above'']"
    and "\<forall>x\<in>set [a, ''Not '' @ a, ''None of the above'']. x \<noteq> a \<longrightarrow> lower x \<noteq> lower a"
proof -
  have l1: "lower (''Not '' @ a) \<noteq> lower a"
  proof
    assume "lower (''Not '' @ a) = lower a"
    then have "length (lower (''Not '' @ a)) = length (lower a)" by (rule arg_cong)
    then show False by simp
  qed
  have l2: "lower ''None of the above'' \<noteq> lower a"
  proof
    assume "lower ''None of the above'' = lower a"
    with none_of_the_above_space have "CHR '' '' \<in> set (lower a)" by (simp only:)
    with lower_no_space [OF assms] show False by blast
  qed
  have l3: "''Not '' @ a \<noteq> ''None of the above''" by simp
  from l1 have n1: "''Not '' @ a \<noteq> a" by auto
  from l2 have n2: "''None of the above'' \<noteq> a" by auto
  from n1 n2 l3 show "distinct [a, ''Not '' @ a, ''None of the above'']"
    by (simp only: distinct.simps list.set insert_iff empty_iff) blast
  show "\<forall>x\<in>set [a, ''Not '' @ a, ''None of the above'']. x \<noteq> a \<longrightarrow> lower x \<noteq> lower a"
  proof (intro ballI impI)
    fix x assume "x \<in> set [a, ''Not '' @ a, ''None of the above'']" and "x \<noteq> a"
    then have "x = ''Not '' @ a \<or> x = ''None of the above''"
      by (simp only: list.set insert_iff empty_iff) blast
    with l1 l2 show "lower x \<noteq> lower a" by blast
  qed
qed


lemma built_options:
  assumes cand: "(idx, answer) \<in> set (blank_candidates (py_split s))"
    and bo: "build_options fuel rnd p1 (filter (\<lambda>d. lower d \<noteq> lower answer) pool) answer [answer]
               = Some (Inr (opts, p2))"
    and sh: "mset shuffled = mset opts"
  shows "answer \<in> set shuffled"
    and "distinct shuffled"
    and "\<forall>x\<in>set shuffled. x \<noteq> answer \<longrightarrow> lower x \<noteq> lower answer"
    and "length shuffled = 3 \<or> length shuffled = 4"
proof -
  let ?cd = "filter (\<lambda>d. lower d \<noteq> lower answer) pool"
  have props: "answer \<in> set opts \<and> distinct opts
                 \<and> (\<forall>x\<in>set opts. x \<noteq> answer \<longrightarrow> lower x \<noteq> lower answer)
                 \<and> (length opts = 3 \<or> length opts = 4)"
  proof (cases "?cd = []")
    case True
    with bo have "build_options fuel rnd p1 [] answer [answer] = Some (Inr (opts, p2))"
      by simp
    then have opts: "opts = [answer, ''Not '' @ answer, ''None of the above'']"
      by (rule build_options_empty)
    from cand have "CHR '' '' \<notin> set answer" by (rule answer_no_space)
    from filler_options [OF this] show ?thesis
      unfolding opts by simp
  next
    case False
    have "distinct [answer]" and "length [answer] \<le> 4" by simp_all
    with bo False
    have b: "distinct opts \<and> set [answer] \<subseteq> set opts \<and> set opts \<subseteq> set [answer] \<union> set ?cd
               \<and> length opts = 4"
      by (rule build_options_pool)
    then have "\<forall>x\<in>set opts. x \<noteq> answer \<longrightarrow> x \<in> set ?cd" by auto
    then have "\<forall>x\<in>set opts. x \<noteq> answer \<longrightarrow> lower x \<noteq> lower answer" by auto
    with b show ?thesis by simp
  qed
  from sh have st: "set shuffled = set opts" by (rule mset_eq_setD)
  from sh have ln: "length shuffled = length opts" by (rule mset_eq_length)
  from sh have ds: "distinct shuffled \<longleftrightarrow> distinct opts" by (rule mset_eq_imp_distinct_iff)
  from props st show "answer \<in> set shuffled" by simp
  from props ds show "distinct shuffled" by simp
  from props st show "\<forall>x\<in>set shuffled. x \<noteq> answer \<longrightarrow> lower x \<noteq> lower answer" by simp
  from props ln show "length shuffled = 3 \<or> length shuffled = 4" by simp
qed

lemma quiz_loop_all:
  assumes "quiz_loop fuel rnd n pool sents (qs, used, p) = Some (Inr res)"
    and "\<forall>q\<in>set qs. P q"
    and step: "\<And>s idx answer opts p1 p2 shuffled qt.
      (idx, answer) \<in> set (blank_candidates (py_split s)) \<Longrightarrow>
      build_options fuel rnd p1 (filter (\<lambda>d. lower d \<noteq> lower answer) pool) answer [answer]
        = Some (Inr (opts, p2)) \<Longrightarrow>
      mset shuffled = mset opts \<Longrightarrow>
      P \<lparr>question = qt, options = shuffled, correct_answer = answer\<rparr>"
  shows "\<forall>q\<in>set res. P q"
  using assms(1,2)
proof (induction sents arbitrary: qs used p)
  case Nil
  then show ?case by simp
next
  case (Cons s rest)
  from Cons.prems(1) show ?case
  proof (cases rule: quiz_loop_Cons_cases)
    case stop
    with Cons.prems(2) show ?thesis by simp
  next
    case (skip p1)
    from Cons.IH [OF skip Cons.prems(2)] show ?thesis .
  next
    case (add idx answer opts p1 p2 shuffled p3 qt)
    have "P \<lparr>question = qt, options = shuffled, correct_answer = answer\<rparr>"
      using add(1,3) shuffle_mset [OF add(4)] by (rule step)
    with Cons.prems(2)
    have "\<forall>q\<in>set (qs @ [\<lparr>question = qt, options = shuffled, correct_answer = answer\<rparr>]). P q"
      by simp
    from Cons.IH [OF add(5) this] show ?thesis .
  qed
qed

lemma quiz_loop_answers:
  assumes "quiz_loop fuel rnd n pool sents (qs, used, p) = Some (Inr res)"
    and "distinct (map (\<lambda>q. lower (correct_answer q)) qs)"
    and "\<forall>q\<in>set qs. lower (correct_answer q) \<in> used"
  shows "distinct (map (\<lambda>q. lower (correct_answer q)) res)"
  using assms
proof (induction sents arbitrary: qs used p)
  case Nil
  then show ?case by simp
next
  case (Cons s rest)
  from Cons.prems(1) show ?case
  proof (cases rule: quiz_loop_Cons_cases)
    case stop
    with Cons.prems(2) show ?thesis by simp
  next
    case (skip p1)
    from Cons.IH [OF skip Cons.prems(2,3)] show ?thesis .
  next
    case (add idx answer opts p1 p2 shuffled p3 qt)
    let ?q = "\<lparr>question = qt, options = shuffled, correct_answer = answer\<rparr>"
    from add(2) Cons.prems(3) have "lower answer \<notin> (\<lambda>q. lower (correct_answer q)) ` set qs"
      by auto
    with Cons.prems(2) have d: "distinct (map (\<lambda>q. lower (correct_answer q)) (qs @ [?q]))"
      by simp
    from Cons.prems(3)
    have u: "\<forall>q\<in>set (qs @ [?q]). lower (correct_answer q) \<in> insert (lower answer) used"
      by simp
    from Cons.IH [OF add(5) d u] show ?thesis .
  qed
qed

lemma generate_quiz_Some:
  assumes "generate_quiz fuel rnd text n = Some quiz"
  shows "quiz_loop fuel rnd n (all_potential_distractors (extract_key_points text (n * 3)))
           (extract_key_points text (n * 3)) ([], {}, 0) = Some (Inr quiz)"
  using assms quiz_loop_no_raise
  by (auto simp: generate_quiz_def Let_def split: option.splits sum.splits)

text \<open>C3: in every question that \<open>generate_quiz\<close> returns, \<open>correct_answer\<close> is
  an element of \<open>options\<close>, character for character.\<close>

theorem correct_answer_in_options:
  assumes "generate_quiz fuel rnd text num_questions = Some quiz" and "q \<in> set quiz"
  shows "correct_answer q \<in> set (options q)"
proof -
  have "\<forall>q\<in>set quiz. correct_answer q \<in> set (options q)"
    using generate_quiz_Some [OF assms(1)]
  proof (rule quiz_loop_all)
    show "\<forall>q\<in>set []. correct_answer q \<in> set (options q)" by simp
  next
    fix s idx answer opts p1 p2 shuffled qt
    assume "(idx, answer) \<in> set (blank_candidates (py_split s))"
      and "build_options fuel rnd p1 (filter (\<lambda>d. lower d \<noteq> lower answer)
             (all_potential_distractors (extract_key_points text (num_questions * 3)))) answer [answer]
           = Some (Inr (opts, p2))"
      and "mset shuffled = mset opts"
    then have "answer \<in> set shuffled" by (rule built_options(1))
    then show "correct_answer \<lparr>question = qt, options = shuffled, correct_answer = answer\<rparr>
               \<in> set (options \<lparr>question = qt, options = shuffled, correct_answer = answer\<rparr>)"
      by simp
  qed
  with assms(2) show ?thesis by blast
qed

text \<open>C4, as the code has it: in every question that \<open>generate_quiz\<close> returns, the
  options are pairwise distinct as strings (the membership test of line 246 compares
  exactly), and every option other than the correct answer differs from the correct
  answer also after lower-casing (the filter of line 240).\<close>

theorem options_distinct:
  assumes "generate_quiz fuel rnd text num_questions = Some quiz" and "q \<in> set quiz"
  shows "distinct (options q)
         \<and> (\<forall>x\<in>set (options q). x \<noteq> correct_answer q \<longrightarrow> lower x \<noteq> lower (correct_answer q))"
proof -
  let ?P = "\<lambda>q. distinct (options q)
         \<and> (\<forall>x\<in>set (options q). x \<noteq> correct_answer q \<longrightarrow> lower x \<noteq> lower (correct_answer q))"
  have "\<forall>q\<in>set quiz. ?P q"
    using generate_quiz_Some [OF assms(1)]
  proof (rule quiz_loop_all)
    show "\<forall>q\<in>set []. ?P q" by simp
  next
    fix s idx answer opts p1 p2 shuffled qt
    assume a: "(idx, answer) \<in> set (blank_candidates (py_split s))"
      "build_options fuel rnd p1 (filter (\<lambda>d. lower d \<noteq> lower answer)
             (all_potential_distractors (extract_key_points text (num_questions * 3)))) answer [answer]
           = Some (Inr (opts, p2))"
      "mset shuffled = mset opts"
    from a have "distinct shuffled" by (rule built_options(2))
    moreover from a have "\<forall>x\<in>set shuffled. x \<noteq> answer \<longrightarrow> lower x \<noteq> lower answer"
      by (rule built_options(3))
    ultimately show "?P \<lparr>question = qt, options = shuffled, correct_answer = answer\<rparr>"
      by simp
  qed
  with assms(2) show ?thesis by blast
qed

text \<open>C9: the questions returned by one call of \<open>generate_quiz\<close> have pairwise
  distinct correct answers after lower-casing, however many questions are returned.\<close>

theorem correct_answers_distinct:
  assumes "generate_quiz fuel rnd text num_questions = Some quiz"
  shows "distinct (map (\<lambda>q. lower (correct_answer q)) quiz)"
  using generate_quiz_Some [OF assms]
  by (rule quiz_loop_answers) simp_all

section \<open>Runs on concrete transcripts\<close>

theorem correct_answer_in_options_witness:
  "generate_quiz 10 id ''Photosynthesis converts sunlight into chemical energy inside the chloroplast of plants. Mitochondria release that stored energy during cellular respiration in animals.'' 1
     = Some [\<lparr>question = ''Complete the statement: '' @ [CHR 0x22] @ ''__________ converts sunlight into chemical energy inside the chloroplast of plants.'' @ [CHR 0x22],
               options = [''sunlight'', ''energy'', ''chemical'', ''Photosynthesis''],
               correct_answer = ''Photosynthesis''\<rparr>]
   \<and> correct_answer \<lparr>question = ''Complete the statement: '' @ [CHR 0x22] @ ''__________ converts sunlight into chemical energy inside the chloroplast of plants.'' @ [CHR 0x22],
               options = [''sunlight'', ''energy'', ''chemical'', ''Photosynthesis''],
               correct_answer = ''Photosynthesis''\<rparr>
       \<in> set (options \<lparr>question = ''Complete the statement: '' @ [CHR 0x22] @ ''__________ converts sunlight into chemical energy inside the chloroplast of plants.'' @ [CHR 0x22],
               options = [''sunlight'', ''energy'', ''chemical'', ''Photosynthesis''],
               correct_answer = ''Photosynthesis''\<rparr>)"
proof -
  let ?q = "\<lparr>question = ''Complete the statement: '' @ [CHR 0x22] @ ''__________ converts sunlight into chemical energy inside the chloroplast of plants.'' @ [CHR 0x22],
               options = [''sunlight'', ''energy'', ''chemical'', ''Photosynthesis''],
               correct_answer = ''Photosynthesis''\<rparr>"
  have h: "generate_quiz 10 id ''Photosynthesis converts sunlight into chemical energy inside the chloroplast of plants. Mitochondria release that stored energy during cellular respiration in animals.'' 1
     = Some [?q]"
    by code_simp
  have m: "?q \<in> set [?q]" by (rule list.set_intros(1))
  from correct_answer_in_options [OF h m] h show ?thesis by (rule conjI [rotated])
qed

theorem options_distinct_witness:
  "generate_quiz 10 id ''Sunlight reaches Plants because plants absorb energy from the sun'' 1
     = Some [\<lparr>question = ''Complete the statement: '' @ [CHR 0x22] @ ''__________ reaches Plants because plants absorb energy from the sun.'' @ [CHR 0x22],
               options = [''Plants'', ''plants'', ''because'', ''Sunlight''],
               correct_answer = ''Sunlight''\<rparr>]
   \<and> distinct [''Plants'', ''plants'', ''because'', ''Sunlight'']
   \<and> lower ''Plants'' \<noteq> lower ''Sunlight''
   \<and> lower ''plants'' \<noteq> lower ''Sunlight''
   \<and> lower ''because'' \<noteq> lower ''Sunlight''"
proof -
  let ?q = "\<lparr>question = ''Complete the statement: '' @ [CHR 0x22] @ ''__________ reaches Plants because plants absorb energy from the sun.'' @ [CHR 0x22],
               options = [''Plants'', ''plants'', ''because'', ''Sunlight''],
               correct_answer = ''Sunlight''\<rparr>"
  have h: "generate_quiz 10 id ''Sunlight reaches Plants because plants absorb energy from the sun'' 1
     = Some [?q]"
    by code_simp
  have m: "?q \<in> set [?q]" by (rule list.set_intros(1))
  have "distinct (options ?q)
         \<and> (\<forall>x\<in>set (options ?q). x \<noteq> correct_answer ?q \<longrightarrow> lower x \<noteq> lower (correct_answer ?q))"
    using h m by (rule options_distinct)
  then have both: "distinct [''Plants'', ''plants'', ''because'', ''Sunlight'']
      \<and> (\<forall>x\<in>set [''Plants'', ''plants'', ''because'', ''Sunlight''].
          x \<noteq> ''Sunlight'' \<longrightarrow> lower x \<noteq> lower ''Sunlight'')"
    by (simp only: QuizQuestion.simps) blast
  then have d: "distinct [''Plants'', ''plants'', ''because'', ''Sunlight'']" ..
  from both have a: "\<forall>x\<in>set [''Plants'', ''plants'', ''because'', ''Sunlight''].
          x \<noteq> ''Sunlight'' \<longrightarrow> lower x \<noteq> lower ''Sunlight''" ..
  have "''Plants'' \<noteq> ''Sunlight''" and "''plants'' \<noteq> ''Sunlight''"
    and "''because'' \<noteq> ''Sunlight''" by simp_all
  with a have "lower ''Plants'' \<noteq> lower ''Sunlight''
   \<and> lower ''plants'' \<noteq> lower ''Sunlight''
   \<and> lower ''because'' \<noteq> lower ''Sunlight''"
    by (simp only: list.set ball_simps insert_iff) blast
  with h d show ?thesis by blast
qed

text \<open>C4 as stated fails: with "Plants" and "plants" both in the pool, both become
  options of one question, and they are equal after lower-casing.\<close>

theorem options_case_insensitive_counterexample:
  "generate_quiz 10 id ''Sunlight reaches Plants because plants absorb energy from the sun'' 1
     = Some [\<lparr>question = ''Complete the statement: '' @ [CHR 0x22] @ ''__________ reaches Plants because plants absorb energy from the sun.'' @ [CHR 0x22],
               options = [''Plants'', ''plants'', ''because'', ''Sunlight''],
               correct_answer = ''Sunlight''\<rparr>]
   \<and> \<not> distinct (map lower [''Plants'', ''plants'', ''because'', ''Sunlight''])"
  by code_simp

theorem correct_answers_distinct_witness:
  "generate_quiz 10 id ''Photosynthesis converts sunlight into chemical energy inside the chloroplast of plants. Mitochondria release that stored energy during cellular respiration in animals.'' 2
     = Some [\<lparr>question = ''Complete the statement: '' @ [CHR 0x22] @ ''__________ converts sunlight into chemical energy inside the chloroplast of plants.'' @ [CHR 0x22],
               options = [''sunlight'', ''energy'', ''chemical'', ''Photosynthesis''],
               correct_answer = ''Photosynthesis''\<rparr>,
             \<lparr>question = ''Complete the statement: '' @ [CHR 0x22] @ ''Mitochondria release that stored energy during cellular respiration in __________'' @ [CHR 0x22],
               options = [''release'', ''Mitochondria'', ''animals'', ''stored''],
               correct_answer = ''animals''\<rparr>]
   \<and> distinct (map (\<lambda>q. lower (correct_answer q))
        [\<lparr>question = ''Complete the statement: '' @ [CHR 0x22] @ ''__________ converts sunlight into chemical energy inside the chloroplast of plants.'' @ [CHR 0x22],
               options = [''sunlight'', ''energy'', ''chemical'', ''Photosynthesis''],
               correct_answer = ''Photosynthesis''\<rparr>,
             \<lparr>question = ''Complete the statement: '' @ [CHR 0x22] @ ''Mitochondria release that stored energy during cellular respiration in __________'' @ [CHR 0x22],
               options = [''release'', ''Mitochondria'', ''animals'', ''stored''],
               correct_answer = ''animals''\<rparr>])"
proof -
  let ?quiz = "[\<lparr>question = ''Complete the statement: '' @ [CHR 0x22] @ ''__________ converts sunlight into chemical energy inside the chloroplast of plants.'' @ [CHR 0x22],
               options = [''sunlight'', ''energy'', ''chemical'', ''Photosynthesis''],
               correct_answer = ''Photosynthesis''\<rparr>,
             \<lparr>question = ''Complete the statement: '' @ [CHR 0x22] @ ''Mitochondria release that stored energy during cellular respiration in __________'' @ [CHR 0x22],
               options = [''release'', ''Mitochondria'', ''animals'', ''stored''],
               correct_answer = ''animals''\<rparr>]"
  have h: "generate_quiz 10 id ''Photosynthesis converts sunlight into chemical energy inside the chloroplast of plants. Mitochondria release that stored energy during cellular respiration in animals.'' 2
     = Some ?quiz"
    by code_simp
  from h correct_answers_distinct [OF h] show ?thesis by (rule conjI)
qed

section \<open>The option-building loop with a small pool\<close>

text \<open>C1 fails on the code: when the only blankable word of the transcript is the
  answer itself, the pool without the answer is empty, the filler branch appends two
  options to the answer and leaves the loop, and the question has 3 options, not 4.\<close>

theorem filler_gives_three_options:
  "generate_quiz 1 id ''Photosynthesis is how the green tree in the sun eats'' 1
     = Some [\<lparr>question = ''Complete the statement: '' @ [CHR 0x22] @ ''__________ is how the green tree in the sun eats.'' @ [CHR 0x22],
               options = [''None of the above'', ''Photosynthesis'', ''Not Photosynthesis''],
               correct_answer = ''Photosynthesis''\<rparr>]
   \<and> length [''None of the above'', ''Photosynthesis'', ''Not Photosynthesis''] = 3"
  by code_simp


lemma build_options_stuck:
  assumes "cd \<noteq> []" and "distinct opts" and "card (set opts \<union> set cd) < 4"
  shows "build_options fuel rnd p cd a opts = None"
  using assms
proof (induction fuel arbitrary: p opts)
  case 0
  have "length opts = card (set opts)"
    using "0.prems"(2) by (simp add: distinct_card)
  also have "\<dots> \<le> card (set opts \<union> set cd)"
    by (rule card_mono) simp_all
  finally have "length opts < 4" using "0.prems"(3) by simp
  then show ?case by simp
next
  case (Suc fuel)
  have "length opts = card (set opts)"
    using Suc.prems(2) by (simp add: distinct_card)
  also have "\<dots> \<le> card (set opts \<union> set cd)"
    by (rule card_mono) simp_all
  finally have short: "length opts < 4" using Suc.prems(3) by simp
  define d where "d = cd ! (rnd p mod length cd)"
  define opts' where "opts' = (if d \<notin> set opts then opts @ [d] else opts)"
  from Suc.prems(1) have dcd: "d \<in> set cd" by (simp add: d_def)
  have "distinct opts'" using Suc.prems(2) by (simp add: opts'_def)
  moreover from dcd have "set opts' \<union> set cd = set opts \<union> set cd"
    by (auto simp: opts'_def)
  with Suc.prems(3) have "card (set opts' \<union> set cd) < 4" by simp
  ultimately have "build_options fuel rnd (Suc p) cd a opts' = None"
    using Suc.prems(1) by (intro Suc.IH)
  with short Suc.prems(1) show ?case
    by (auto simp add: choice_def d_def opts'_def split: if_splits)
qed

lemma quiz_loop_diverges:
  assumes go: "\<not> n \<le> int (length qs)"
    and f1: "\<not> length (py_split s) < 8"
    and f2: "blank_candidates (py_split s) \<noteq> []"
    and all: "\<And>idx answer. (idx, answer) \<in> set (blank_candidates (py_split s)) \<Longrightarrow>
               lower answer \<notin> used \<and>
               build_options fuel rnd (Suc p) (filter (\<lambda>d. lower d \<noteq> lower answer) pool)
                 answer [answer] = None"
  shows "quiz_loop fuel rnd n pool (s # rest) (qs, used, p) = None"
proof -
  define cands where "cands = blank_candidates (py_split s)"
  define pick where "pick = cands ! (rnd p mod length cands)"
  from f2 have ne: "cands \<noteq> []" by (simp add: cands_def)
  then have mem: "pick \<in> set cands" by (simp add: pick_def)
  obtain idx answer where pk: "pick = (idx, answer)" by (cases pick)
  have ch: "choice (rnd p) (blank_candidates (py_split s)) = Inr (idx, answer)"
    using ne pk by (simp add: choice_def cands_def pick_def)
  from mem pk have "(idx, answer) \<in> set (blank_candidates (py_split s))"
    by (simp add: cands_def)
  from all [OF this] have fresh: "lower answer \<notin> used"
    and bo: "build_options fuel rnd (Suc p) (filter (\<lambda>d. lower d \<noteq> lower answer) pool)
               answer [answer] = None"
    by simp_all
  show ?thesis
    by (simp only: quiz_loop.simps Let_def go f1 f2 ch fresh bo if_False sum.case prod.case
          option.case)
qed

text \<open>C5 fails on the code: when the pool without the answer holds one word only, the
  options never reach 4 and the filler branch is never taken, so the \<open>while\<close> loop
  needs more iterations than any amount of fuel, whatever the random source draws.\<close>

theorem two_word_pool_never_returns:
  "generate_quiz fuel rnd ''Photosynthesis is how the plants in the sun do eat'' 1 = None"
proof -
  let ?s = "''Photosynthesis is how the plants in the sun do eat.''"
  have cs: "extract_key_points ''Photosynthesis is how the plants in the sun do eat'' (1 * 3) = [?s]"
    by code_simp
  have pool: "all_potential_distractors [?s] = [''Photosynthesis'', ''plants'']"
    by code_simp
  have words: "\<not> length (py_split ?s) < 8"
    by code_simp
  have cands: "blank_candidates (py_split ?s) = [(0, ''Photosynthesis''), (4, ''plants'')]"
    by code_simp
  have c1: "filter (\<lambda>d. lower d \<noteq> lower ''Photosynthesis'') [''Photosynthesis'', ''plants'']
              = [''plants'']"
    by code_simp
  have c2: "filter (\<lambda>d. lower d \<noteq> lower ''plants'') [''Photosynthesis'', ''plants'']
              = [''Photosynthesis'']"
    by code_simp
  have s1: "build_options fuel rnd (Suc 0) [''plants''] ''Photosynthesis'' [''Photosynthesis''] = None"
    by (rule build_options_stuck) simp_all
  have s2: "build_options fuel rnd (Suc 0) [''Photosynthesis''] ''plants'' [''plants''] = None"
    by (rule build_options_stuck) simp_all
  have "quiz_loop fuel rnd 1 [''Photosynthesis'', ''plants''] [?s] ([], {}, 0) = None"
  proof (rule quiz_loop_diverges)
    show "\<not> 1 \<le> int (length ([] :: QuizQuestion list))" by simp
    show "\<not> length (py_split ?s) < 8" by (rule words)
    show "blank_candidates (py_split ?s) \<noteq> []" by (simp only: cands) simp
  next
    fix idx answer
    assume "(idx, answer) \<in> set (blank_candidates (py_split ?s))"
    then have "answer = ''Photosynthesis'' \<or> answer = ''plants''"
      by (simp only: cands list.set insert_iff empty_iff prod.inject) blast
    then show "lower answer \<notin> {} \<and>
               build_options fuel rnd (Suc 0)
                 (filter (\<lambda>d. lower d \<noteq> lower answer) [''Photosynthesis'', ''plants''])
                 answer [answer] = None"
      using c1 c2 s1 s2 by auto
  qed
  then show ?thesis
    by (simp only: generate_quiz_def Let_def cs pool option.case)
qed

end
